theory Spec2Isabelle
  imports Main "HOL-Library.Log_Nat" "HOL-Library.AList"
begin

section \<open>Python values the aggregator computes with\<close>

text \<open>
  The exceptions that the engine's code can raise. \<open>OSError\<close> stands for its
  subclasses that the file system raises (FileNotFoundError, FileExistsError,
  NotADirectoryError, IsADirectoryError). The input is the sequence of rows that
  \<open>csv.DictReader\<close> yields: reading the input file is outside this development.
\<close>

datatype error = KeyError | ValueError | TypeError | OverflowError | ZeroDivisionError | OSError

subsection \<open>Floats\<close>

text \<open>
  A Python float is an IEEE 754 binary64 value. \<open>Fin q\<close> is the finite double of
  value \<open>q\<close>; every operation below returns \<open>Fin q\<close> only for a \<open>q\<close> that binary64
  represents. The sign of zero is not modelled (\<open>-0.0 == 0.0\<close> in Python, and no
  operation of the engine tells them apart before a value is printed).
\<close>

datatype pyfloat = Fin rat | PInf | NInf | NaN

definition round_half_even :: "rat \<Rightarrow> int" where
  "round_half_even q =
     (let f = \<lfloor>q\<rfloor>; d = q - of_int f
      in if d < 1 / 2 then f else if 1 / 2 < d then f + 1
         else if even f then f else f + 1)"

definition ilog2 :: "rat \<Rightarrow> int" where
  \<comment> \<open>the binary exponent of a non-zero rational: \<open>2 powi ilog2 q \<le> \<bar>q\<bar> < 2 powi (ilog2 q + 1)\<close>\<close>
  "ilog2 q =
     (let d = bitlen (fst (quotient_of \<bar>q\<bar>)) - bitlen (snd (quotient_of \<bar>q\<bar>))
      in if 2 powi d \<le> \<bar>q\<bar> then d else d - 1)"

definition rnd64 :: "rat \<Rightarrow> pyfloat" where
  \<comment> \<open>round to nearest, ties to even, with 53 bits of precision, gradual underflow
      below \<open>2 powi (- 1022)\<close> and overflow to infinity\<close>
  "rnd64 q =
     (if q = 0 then Fin 0
      else let e = max (ilog2 q) (- 1022);
               u = 2 powi (e - 52);
               r = of_int (round_half_even (q / u)) * u
           in if 2 ^ 1024 \<le> \<bar>r\<bar> then (if 0 < q then PInf else NInf) else Fin r)"

definition float_of_int :: "int \<Rightarrow> error + pyfloat" where
  \<comment> \<open>the coercion of an \<open>int\<close> operand of a float operation; Python raises
      OverflowError ("int too large to convert to float") instead of giving infinity\<close>
  "float_of_int n =
     (case rnd64 (of_int n) of Fin q \<Rightarrow> Inr (Fin q) | _ \<Rightarrow> Inl OverflowError)"

fun float_add :: "pyfloat \<Rightarrow> pyfloat \<Rightarrow> pyfloat" where
  "float_add (Fin a) (Fin b) = rnd64 (a + b)"
| "float_add NaN _ = NaN"
| "float_add _ NaN = NaN"
| "float_add PInf NInf = NaN"
| "float_add NInf PInf = NaN"
| "float_add PInf _ = PInf"
| "float_add _ PInf = PInf"
| "float_add NInf _ = NInf"
| "float_add _ NInf = NInf"

fun float_lt :: "pyfloat \<Rightarrow> pyfloat \<Rightarrow> bool" where
  "float_lt NaN _ = False"
| "float_lt _ NaN = False"
| "float_lt (Fin a) (Fin b) = (a < b)"
| "float_lt _ NInf = False"
| "float_lt NInf _ = True"
| "float_lt PInf _ = False"
| "float_lt _ PInf = True"

definition float_gt :: "pyfloat \<Rightarrow> pyfloat \<Rightarrow> bool" where
  "float_gt x y = float_lt y x"


fun float_truediv :: "pyfloat \<Rightarrow> pyfloat \<Rightarrow> error + pyfloat" where
  "float_truediv x (Fin b) =
     (if b = 0 then Inl ZeroDivisionError
      else case x of
             Fin a \<Rightarrow> Inr (rnd64 (a / b))
           | PInf \<Rightarrow> Inr (if 0 < b then PInf else NInf)
           | NInf \<Rightarrow> Inr (if 0 < b then NInf else PInf)
           | NaN \<Rightarrow> Inr NaN)"
| "float_truediv (Fin a) PInf = Inr (Fin 0)"
| "float_truediv (Fin a) NInf = Inr (Fin 0)"
| "float_truediv _ _ = Inr NaN"

fun round4 :: "pyfloat \<Rightarrow> pyfloat" where
  \<comment> \<open>\<open>round(x, 4)\<close>: the decimal with four places nearest to the exact value of \<open>x\<close>
      (ties to even), converted back to the nearest double; infinities and NaN are
      returned as they are. CPython raises OverflowError when the result is infinite,
      which no finite double reaches with four places: a double of magnitude
      \<open>2 ^ 52\<close> or more is an integer and is returned unchanged.\<close>
  "round4 (Fin q) = rnd64 (of_int (round_half_even (q * 10 ^ 4)) / 10 ^ 4)"
| "round4 x = x"

fun int_of_float :: "pyfloat \<Rightarrow> error + int" where
  \<comment> \<open>\<open>int(x)\<close> truncates towards zero\<close>
  "int_of_float (Fin q) = Inr (if 0 \<le> q then \<lfloor>q\<rfloor> else \<lceil>q\<rceil>)"
| "int_of_float NaN = Inl ValueError"
| "int_of_float _ = Inl OverflowError"

subsection \<open>Converting the text of a cell\<close>

text \<open>
  The text of a cell is a string of ASCII characters. \<open>int(s)\<close> and \<open>float(s)\<close>
  strip the white space of C (tab, line feed, vertical tab, form feed, carriage return
  and space), then accept the decimal literals of Python, with single underscores
  between digits; \<open>float\<close> also accepts \<open>inf\<close>, \<open>infinity\<close> and \<open>nan\<close> in any
  case. A failed conversion raises ValueError.
\<close>

definition is_space :: "char \<Rightarrow> bool" where
  "is_space c = ((of_char c :: nat) \<in> {9, 10, 11, 12, 13, 32})"

definition is_digit :: "char \<Rightarrow> bool" where
  "is_digit c = (48 \<le> (of_char c :: nat) \<and> (of_char c :: nat) \<le> 57)"

definition lower :: "char \<Rightarrow> char" where
  "lower c = (if 65 \<le> (of_char c :: nat) \<and> (of_char c :: nat) \<le> 90
              then char_of ((of_char c :: nat) + 32) else c)"

definition strip :: "string \<Rightarrow> string" where
  "strip s = rev (dropWhile is_space (rev (dropWhile is_space s)))"

definition digits_value :: "string \<Rightarrow> int" where
  "digits_value ds = foldl (\<lambda>a c. 10 * a + (int (of_char c) - 48)) 0 ds"

fun parse_digits :: "string \<Rightarrow> string option" where
  \<comment> \<open>one or more digits, single underscores allowed between two digits; returns the digits\<close>
  "parse_digits [] = None"
| "parse_digits [c] = (if is_digit c then Some [c] else None)"
| "parse_digits (c # d # cs) =
     (if is_digit c
      then (if d = CHR ''_'' then map_option (Cons c) (parse_digits cs)
            else map_option (Cons c) (parse_digits (d # cs)))
      else None)"

definition split_sign :: "string \<Rightarrow> bool \<times> string" where
  "split_sign s =
     (case s of
        [] \<Rightarrow> (False, [])
      | c # r \<Rightarrow> if c = CHR ''-'' then (True, r)
                 else if c = CHR ''+'' then (False, r) else (False, s))"

definition py_int :: "string \<Rightarrow> error + int" where
  \<comment> \<open>\<open>int(s)\<close>; more than 4300 digits are refused (CPython's default limit)\<close>
  "py_int s =
     (case split_sign (strip s) of
        (neg, u) \<Rightarrow>
          (case parse_digits u of
             None \<Rightarrow> Inl ValueError
           | Some ds \<Rightarrow>
               if 4300 < length ds then Inl ValueError
               else Inr (if neg then - digits_value ds else digits_value ds)))"

fun underscores_ok :: "char option \<Rightarrow> string \<Rightarrow> bool" where
  "underscores_ok prev [] = True"
| "underscores_ok prev (c # cs) =
     (if c = CHR ''_''
      then (case prev of Some p \<Rightarrow> is_digit p | None \<Rightarrow> False)
           \<and> (case cs of n # _ \<Rightarrow> is_digit n | [] \<Rightarrow> False)
           \<and> underscores_ok (Some c) cs
      else underscores_ok (Some c) cs)"

definition parse_exponent :: "string \<Rightarrow> int option" where
  \<comment> \<open>what follows the mantissa: nothing, or \<open>e\<close>, an optional sign and digits\<close>
  "parse_exponent s =
     (case s of
        [] \<Rightarrow> Some 0
      | c # r \<Rightarrow>
          if lower c = CHR ''e''
          then (case split_sign r of
                  (neg, ds) \<Rightarrow>
                    if ds \<noteq> [] \<and> list_all is_digit ds
                    then Some (if neg then - digits_value ds else digits_value ds)
                    else None)
          else None)"

definition parse_decimal :: "string \<Rightarrow> rat option" where
  "parse_decimal s =
     (let ip = takeWhile is_digit s; r1 = dropWhile is_digit s;
          fp = (case r1 of c # r \<Rightarrow> if c = CHR ''.'' then takeWhile is_digit r else [] | [] \<Rightarrow> []);
          r2 = (case r1 of c # r \<Rightarrow> if c = CHR ''.'' then dropWhile is_digit r else r1 | [] \<Rightarrow> [])
      in if ip @ fp = [] then None
         else case parse_exponent r2 of
                None \<Rightarrow> None
              | Some ex \<Rightarrow>
                  Some (of_int (digits_value (ip @ fp)) * 10 powi (ex - int (length fp))))"

definition py_float :: "string \<Rightarrow> error + pyfloat" where
  \<comment> \<open>\<open>float(s)\<close>\<close>
  "py_float s =
     (let t = strip s
      in if \<not> underscores_ok None t then Inl ValueError
         else case split_sign (filter (\<lambda>c. c \<noteq> CHR ''_'') t) of
                (neg, u) \<Rightarrow>
                  if map lower u = ''inf'' \<or> map lower u = ''infinity''
                  then Inr (if neg then NInf else PInf)
                  else if map lower u = ''nan'' then Inr NaN
                  else (case parse_decimal u of
                          None \<Rightarrow> Inl ValueError
                        | Some q \<Rightarrow> Inr (rnd64 (if neg then - q else q))))"

section \<open>The engine\<close>

text \<open>
  A row is the dictionary that \<open>csv.DictReader\<close> yields for one line: column name to
  cell. A cell is the text of the line at that column, or None where the line is
  shorter than the header (the extra cells of a longer line are kept under a key that
  the engine never reads). The campaign id of a row is such a cell, so the keys of the
  engine's dictionaries are texts or None. A Python dictionary keeps its keys in
  insertion order, and the reports depend on that order, so the two dictionaries of
  the engine are association lists: \<open>map_of\<close> looks a key up, \<open>AList.update\<close>
  assigns (in place for a key that is present, at the end for a new one).
\<close>

type_synonym cell = "string option"

type_synonym row = "string \<rightharpoonup> cell"

type_synonym campaign_key = cell

record accumulator =
  impressions :: pyfloat
  clicks :: pyfloat
  spend :: pyfloat
  conversions :: pyfloat

record campaign_metrics =
  ctr :: pyfloat
  cpa :: "pyfloat option"

record engine =
  results :: "(campaign_key \<times> accumulator) list"
  metrics :: "(campaign_key \<times> campaign_metrics) list"

definition init :: engine where
  "init = \<lparr>results = [], metrics = []\<rparr>"

subsection \<open>aggregate\<close>

definition cell_int :: "row \<Rightarrow> string \<Rightarrow> error + int" where
  \<comment> \<open>\<open>int(row[k])\<close>: KeyError without the column, TypeError for the cell None\<close>
  "cell_int row k =
     (case row k of
        None \<Rightarrow> Inl KeyError
      | Some None \<Rightarrow> Inl TypeError
      | Some (Some s) \<Rightarrow> py_int s)"

definition cell_float :: "row \<Rightarrow> string \<Rightarrow> error + pyfloat" where
  \<comment> \<open>\<open>float(row[k])\<close>\<close>
  "cell_float row k =
     (case row k of
        None \<Rightarrow> Inl KeyError
      | Some None \<Rightarrow> Inl TypeError
      | Some (Some s) \<Rightarrow> py_float s)"

definition iadd_int :: "pyfloat \<Rightarrow> error + int \<Rightarrow> error + pyfloat" where
  \<comment> \<open>\<open>x += n\<close> for a float \<open>x\<close> and the int that the right-hand side evaluates to\<close>
  "iadd_int x r =
     (case r of
        Inl e \<Rightarrow> Inl e
      | Inr n \<Rightarrow> (case float_of_int n of Inl e \<Rightarrow> Inl e | Inr y \<Rightarrow> Inr (float_add x y)))"

definition iadd_float :: "pyfloat \<Rightarrow> error + pyfloat \<Rightarrow> error + pyfloat" where
  "iadd_float x r = (case r of Inl e \<Rightarrow> Inl e | Inr y \<Rightarrow> Inr (float_add x y))"

definition zero_accumulator :: accumulator where
  "zero_accumulator = \<lparr>impressions = Fin 0, clicks = Fin 0, spend = Fin 0, conversions = Fin 0\<rparr>"

definition add_impressions :: "row \<Rightarrow> accumulator \<Rightarrow> error + accumulator" where
  \<comment> \<open>\<open>acc['impressions'] += int(row['impressions'])\<close>\<close>
  "add_impressions row a =
     (case iadd_int (impressions a) (cell_int row ''impressions'') of
        Inl e \<Rightarrow> Inl e | Inr v \<Rightarrow> Inr (a\<lparr>impressions := v\<rparr>))"

definition add_clicks :: "row \<Rightarrow> accumulator \<Rightarrow> error + accumulator" where
  "add_clicks row a =
     (case iadd_int (clicks a) (cell_int row ''clicks'') of
        Inl e \<Rightarrow> Inl e | Inr v \<Rightarrow> Inr (a\<lparr>clicks := v\<rparr>))"

definition add_spend :: "row \<Rightarrow> accumulator \<Rightarrow> error + accumulator" where
  "add_spend row a =
     (case iadd_float (spend a) (cell_float row ''spend'') of
        Inl e \<Rightarrow> Inl e | Inr v \<Rightarrow> Inr (a\<lparr>spend := v\<rparr>))"

definition add_conversions :: "row \<Rightarrow> accumulator \<Rightarrow> error + accumulator" where
  "add_conversions row a =
     (case iadd_int (conversions a) (cell_int row ''conversions'') of
        Inl e \<Rightarrow> Inl e | Inr v \<Rightarrow> Inr (a\<lparr>conversions := v\<rparr>))"

definition update_total ::
  "(accumulator \<Rightarrow> error + accumulator) \<Rightarrow> campaign_key \<Rightarrow> (campaign_key \<times> accumulator) list
     \<Rightarrow> error option \<times> (campaign_key \<times> accumulator) list" where
  \<comment> \<open>one statement \<open>self._results[campaign_id][field] += value\<close>: the dictionary is
      changed only when the right-hand side and the addition have succeeded\<close>
  "update_total f campaign_id rs =
     (case map_of rs campaign_id of
        None \<Rightarrow> (Some KeyError, rs)
      | Some a \<Rightarrow>
          (case f a of
             Inl e \<Rightarrow> (Some e, rs)
           | Inr a' \<Rightarrow> (None, AList.update campaign_id a' rs)))"

fun and_then ::
  "error option \<times> 's \<Rightarrow> ('s \<Rightarrow> error option \<times> 's) \<Rightarrow> error option \<times> 's" where
  \<comment> \<open>the next statement runs only when the one before it has not raised\<close>
  "and_then (None, s) f = f s"
| "and_then (Some e, s) f = (Some e, s)"

definition ensure_entry :: "campaign_key \<Rightarrow> (campaign_key \<times> accumulator) list \<Rightarrow> (campaign_key \<times> accumulator) list" where
  \<comment> \<open>\<open>if campaign_id not in self._results: self._results[campaign_id] = {...}\<close>\<close>
  "ensure_entry campaign_id rs =
     (if campaign_id \<notin> fst ` set rs then AList.update campaign_id zero_accumulator rs else rs)"

definition aggregate_row ::
  "row \<Rightarrow> (campaign_key \<times> accumulator) list \<Rightarrow> error option \<times> (campaign_key \<times> accumulator) list" where
  \<comment> \<open>the body of the loop: the four totals are stored one after the other, so a row
      that fails at one field has already changed the fields before it\<close>
  "aggregate_row row rs =
     (case row ''campaign_id'' of
        None \<Rightarrow> (Some KeyError, rs)
      | Some campaign_id \<Rightarrow>
          and_then
            (and_then
               (and_then
                  (update_total (add_impressions row) campaign_id (ensure_entry campaign_id rs))
                  (update_total (add_clicks row) campaign_id))
               (update_total (add_spend row) campaign_id))
            (update_total (add_conversions row) campaign_id))"

fun aggregate_rows ::
  "row list \<Rightarrow> (campaign_key \<times> accumulator) list \<Rightarrow> error option \<times> (campaign_key \<times> accumulator) list" where
  "aggregate_rows [] rs = (None, rs)"
| "aggregate_rows (row # rows) rs =
     (case aggregate_row row rs of
        (Some e, rs') \<Rightarrow> (Some e, rs')
      | (None, rs') \<Rightarrow> aggregate_rows rows rs')"

definition aggregate :: "row list \<Rightarrow> engine \<Rightarrow> (error + (campaign_key \<times> accumulator) list) \<times> engine" where
  \<comment> \<open>both dictionaries are cleared, then the rows are added to \<open>results\<close> in place; an
      exception leaves the engine with what the loop had stored\<close>
  "aggregate rows eng =
     (let eng0 = eng\<lparr>results := [], metrics := []\<rparr>
      in case aggregate_rows rows (results eng0) of
           (Some e, rs) \<Rightarrow> (Inl e, eng0\<lparr>results := rs\<rparr>)
         | (None, rs) \<Rightarrow> (Inr rs, eng0\<lparr>results := rs\<rparr>))"

definition get_results :: "engine \<Rightarrow> (campaign_key \<times> accumulator) list" where
  "get_results eng = results eng"

definition get_campaign_total :: "engine \<Rightarrow> campaign_key \<Rightarrow> accumulator option" where
  "get_campaign_total eng campaign_id = map_of (results eng) campaign_id"

definition get_metrics :: "engine \<Rightarrow> (campaign_key \<times> campaign_metrics) list" where
  "get_metrics eng = metrics eng"

subsection \<open>compute_metrics\<close>

definition metrics_of :: "accumulator \<Rightarrow> error + campaign_metrics" where
  \<comment> \<open>the body of the loop of \<open>compute_metrics\<close>\<close>
  "metrics_of d =
     (case (if float_gt (impressions d) (Fin 0)
            then float_truediv (clicks d) (impressions d) else Inr (Fin 0)) of
        Inl e \<Rightarrow> Inl e
      | Inr ctr_raw \<Rightarrow>
          (case (if float_gt (conversions d) (Fin 0)
                 then map_sum id Some (float_truediv (spend d) (conversions d)) else Inr None) of
             Inl e \<Rightarrow> Inl e
           | Inr cpa_raw \<Rightarrow>
               Inr \<lparr>ctr = round4 ctr_raw, cpa = map_option round4 cpa_raw\<rparr>))"

fun compute_loop ::
  "(campaign_key \<times> accumulator) list \<Rightarrow> (campaign_key \<times> campaign_metrics) list
     \<Rightarrow> error option \<times> (campaign_key \<times> campaign_metrics) list" where
  "compute_loop [] ms = (None, ms)"
| "compute_loop ((campaign_id, d) # rest) ms =
     (case metrics_of d of
        Inl e \<Rightarrow> (Some e, ms)
      | Inr m \<Rightarrow> compute_loop rest (AList.update campaign_id m ms))"

definition compute_metrics :: "engine \<Rightarrow> (error + (campaign_key \<times> campaign_metrics) list) \<times> engine" where
  "compute_metrics eng =
     (case compute_loop (results eng) [] of
        (Some e, ms) \<Rightarrow> (Inl e, eng\<lparr>metrics := ms\<rparr>)
      | (None, ms) \<Rightarrow> (Inr ms, eng\<lparr>metrics := ms\<rparr>))"

subsection \<open>write_reports\<close>

text \<open>
  The output directory is a map from paths to the files written there. A file is kept
  as the header and the rows that \<open>csv.DictWriter\<close> was given, not as text; the
  messages printed to the console are left out.
\<close>

record report_row =
  rr_campaign_id :: campaign_key
  rr_impressions :: int
  rr_clicks :: int
  rr_spend :: pyfloat
  rr_conversions :: int
  rr_ctr :: pyfloat
  rr_cpa :: "pyfloat option"

record csv_row =
  campaign_id :: campaign_key
  total_impressions :: int
  total_clicks :: int
  total_spend :: pyfloat
  total_conversions :: int
  CTR :: pyfloat
  CPA :: "pyfloat option"

record csv_file =
  header :: "string list"
  data_rows :: "csv_row list"

type_synonym filesystem = "string \<rightharpoonup> csv_file"

definition report_row_of ::
  "(campaign_key \<times> accumulator) list \<Rightarrow> campaign_key \<Rightarrow> campaign_metrics \<Rightarrow> error + report_row" where
  \<comment> \<open>the dictionary appended to \<open>report_data\<close>; \<open>int\<close> of an infinity or of NaN raises\<close>
  "report_row_of rs cid m =
     (case map_of rs cid of
        None \<Rightarrow> Inl KeyError
      | Some raw \<Rightarrow>
          (case int_of_float (impressions raw) of
             Inl e \<Rightarrow> Inl e
           | Inr i \<Rightarrow>
               (case int_of_float (clicks raw) of
                  Inl e \<Rightarrow> Inl e
                | Inr c \<Rightarrow>
                    (case int_of_float (conversions raw) of
                       Inl e \<Rightarrow> Inl e
                     | Inr v \<Rightarrow>
                         Inr \<lparr>rr_campaign_id = cid, rr_impressions = i, rr_clicks = c,
                              rr_spend = round4 (spend raw), rr_conversions = v,
                              rr_ctr = ctr m, rr_cpa = cpa m\<rparr>))))"

fun report_loop ::
  "(campaign_key \<times> campaign_metrics) list \<Rightarrow> (campaign_key \<times> accumulator) list \<Rightarrow> error + report_row list" where
  "report_loop [] rs = Inr []"
| "report_loop ((cid, m) # rest) rs =
     (case report_row_of rs cid m of
        Inl e \<Rightarrow> Inl e
      | Inr r \<Rightarrow> (case report_loop rest rs of Inl e \<Rightarrow> Inl e | Inr rows \<Rightarrow> Inr (r # rows)))"

text \<open>
  \<open>sorted(xs, key=..., reverse=...)\<close> is a stable sort that compares keys with \<open><\<close>
  only; with \<open>reverse=True\<close> CPython reverses the list, sorts it and reverses the
  result. It is modelled by a stable insertion sort, which gives the same list as
  CPython's merge sort whenever \<open><\<close> orders the keys, that is when no key is NaN (and
  on any list of at most two elements).
\<close>

fun insort_lt :: "('a \<Rightarrow> pyfloat) \<Rightarrow> 'a \<Rightarrow> 'a list \<Rightarrow> 'a list" where
  "insort_lt key x [] = [x]"
| "insort_lt key x (y # ys) =
     (if float_lt (key x) (key y) then x # y # ys else y # insort_lt key x ys)"

definition sort_ascending :: "('a \<Rightarrow> pyfloat) \<Rightarrow> 'a list \<Rightarrow> 'a list" where
  "sort_ascending key xs = foldl (\<lambda>acc x. insort_lt key x acc) [] xs"

definition py_sorted :: "('a \<Rightarrow> pyfloat) \<Rightarrow> bool \<Rightarrow> 'a list \<Rightarrow> 'a list" where
  "py_sorted key reverse xs =
     (if reverse then rev (sort_ascending key (rev xs)) else sort_ascending key xs)"

definition path_join :: "string \<Rightarrow> string \<Rightarrow> string" where
  \<comment> \<open>\<open>os.path.join(a, b)\<close> on POSIX, for a relative \<open>b\<close>\<close>
  "path_join a b = (if a = [] \<or> last a = CHR ''/'' then a @ b else a @ ''/'' @ b)"

definition fieldnames :: "string list" where
  "fieldnames = [''campaign_id'', ''total_impressions'', ''total_clicks'', ''total_spend'',
                 ''total_conversions'', ''CTR'', ''CPA'']"

definition w_row :: "report_row \<Rightarrow> csv_row" where
  "w_row r = \<lparr>campaign_id = rr_campaign_id r, total_impressions = rr_impressions r,
              total_clicks = rr_clicks r, total_spend = rr_spend r,
              total_conversions = rr_conversions r, CTR = rr_ctr r, CPA = rr_cpa r\<rparr>"

definition write_csv :: "string \<Rightarrow> report_row list \<Rightarrow> filesystem \<Rightarrow> filesystem" where
  \<comment> \<open>\<open>_write_csv\<close>: nothing is opened or written for an empty list\<close>
  "write_csv filepath data fs =
     (if data = [] then fs
      else fs(filepath \<mapsto> \<lparr>header = fieldnames, data_rows = map w_row data\<rparr>))"

definition cpa_key :: "report_row \<Rightarrow> pyfloat" where
  \<comment> \<open>\<open>lambda x: x['cpa']\<close> on the rows of \<open>valid_cpa\<close>, none of which has \<open>cpa\<close> None\<close>
  "cpa_key r = (case rr_cpa r of Some c \<Rightarrow> c | None \<Rightarrow> NaN)"

definition top10_ctr :: "report_row list \<Rightarrow> report_row list" where
  "top10_ctr report_data = take 10 (py_sorted rr_ctr True report_data)"

definition valid_cpa :: "report_row list \<Rightarrow> report_row list" where
  "valid_cpa report_data = filter (\<lambda>r. rr_cpa r \<noteq> None) report_data"

definition top10_cpa :: "report_row list \<Rightarrow> report_row list" where
  "top10_cpa report_data = take 10 (py_sorted cpa_key False (valid_cpa report_data))"

definition ctr_path :: "string \<Rightarrow> string" where
  "ctr_path output_dir = path_join output_dir ''top10_ctr.csv''"

definition cpa_path :: "string \<Rightarrow> string" where
  "cpa_path output_dir = path_join output_dir ''top10_cpa.csv''"

definition write_reports ::
  "string \<Rightarrow> engine \<Rightarrow> filesystem \<Rightarrow> error option \<times> engine \<times> filesystem" where
  "write_reports output_dir eng fs =
     (case (if metrics eng = [] then compute_metrics eng else (Inr (metrics eng), eng)) of
        (Inl e, eng1) \<Rightarrow> (Some e, eng1, fs)
      | (Inr _, eng1) \<Rightarrow>
          (case report_loop (metrics eng1) (results eng1) of
             Inl e \<Rightarrow> (Some e, eng1, fs)
           | Inr report_data \<Rightarrow>
               (None, eng1,
                write_csv (cpa_path output_dir) (top10_cpa report_data)
                  (write_csv (ctr_path output_dir) (top10_ctr report_data) fs))))"


subsection \<open>States of the engine\<close>

definition consistent :: "engine \<Rightarrow> bool" where
  \<comment> \<open>what holds of an engine after any sequence of calls from \<open>init\<close>: the keys of a
      dictionary are distinct, and the metrics are empty or those of the totals\<close>
  "consistent eng =
     (distinct (map fst (results eng)) \<and>
      (metrics eng = [] \<or> compute_loop (results eng) [] = (None, metrics eng)))"

definition campaign_ids :: "row list \<Rightarrow> campaign_key set" where
  "campaign_ids rows = {c. \<exists>row \<in> set rows. row ''campaign_id'' = Some c}"

definition rows_of :: "campaign_key \<Rightarrow> row list \<Rightarrow> row list" where
  \<comment> \<open>the rows bearing a campaign id, in input order\<close>
  "rows_of cid rows = filter (\<lambda>row. row ''campaign_id'' = Some cid) rows"

definition int_cells :: "string \<Rightarrow> row list \<Rightarrow> int list" where
  "int_cells k rows = map (\<lambda>row. case cell_int row k of Inr n \<Rightarrow> n | Inl _ \<Rightarrow> 0) rows"

definition float_cells :: "string \<Rightarrow> row list \<Rightarrow> pyfloat list" where
  "float_cells k rows = map (\<lambda>row. case cell_float row k of Inr x \<Rightarrow> x | Inl _ \<Rightarrow> NaN) rows"

definition entry_or_zero :: "(campaign_key \<times> accumulator) list \<Rightarrow> campaign_key \<Rightarrow> accumulator" where
  \<comment> \<open>the totals a row is added to: those of its campaign, or zeros for a new campaign\<close>
  "entry_or_zero rs cid = (case map_of rs cid of None \<Rightarrow> zero_accumulator | Some a \<Rightarrow> a)"

definition add_row :: "row \<Rightarrow> accumulator \<Rightarrow> error + accumulator" where
  \<comment> \<open>the four additions of one row, seen on the accumulator of its campaign\<close>
  "add_row row a =
     (case add_impressions row a of
        Inl e \<Rightarrow> Inl e
      | Inr a1 \<Rightarrow>
          (case add_clicks row a1 of
             Inl e \<Rightarrow> Inl e
           | Inr a2 \<Rightarrow>
               (case add_spend row a2 of
                  Inl e \<Rightarrow> Inl e
                | Inr a3 \<Rightarrow> add_conversions row a3)))"

fun add_rows :: "row list \<Rightarrow> accumulator \<Rightarrow> error + accumulator" where
  "add_rows [] a = Inr a"
| "add_rows (row # rows) a =
     (case add_row row a of Inl e \<Rightarrow> Inl e | Inr a' \<Rightarrow> add_rows rows a')"

definition malformed :: "row \<Rightarrow> bool" where
  \<comment> \<open>a numeric field of the row cannot be parsed: \<open>int(row[k])\<close> raises for one of
      the three counters, or \<open>float(row['spend'])\<close> raises\<close>
  "malformed row =
     (isl (cell_int row ''impressions'') \<or> isl (cell_int row ''clicks'')
      \<or> isl (cell_float row ''spend'') \<or> isl (cell_int row ''conversions''))"

subsection \<open>Sample data\<close>

text \<open>
  The three campaigns of the test suite after aggregation (\<open>64.29\<close>, \<open>1394.62\<close> and
  \<open>135.93\<close> as the doubles that \<open>float\<close> returns), and the two edge cases of the
  test suite: a campaign without conversions and one without impressions.
\<close>

definition cmp025 :: accumulator where
  "cmp025 = \<lparr>impressions = Fin 3653, clicks = Fin 60,
              spend = Fin (4524006563182019 / 70368744177664), conversions = Fin 2\<rparr>"

definition cmp020 :: accumulator where
  "cmp020 = \<lparr>impressions = Fin 24465, clicks = Fin 764,
              spend = Fin (1533400906328965 / 1099511627776), conversions = Fin 42\<rparr>"

definition cmp019 :: accumulator where
  "cmp019 = \<lparr>impressions = Fin 7214, clicks = Fin 236,
              spend = Fin (2391305849017467 / 17592186044416), conversions = Fin 21\<rparr>"

definition zero_conv :: accumulator where
  "zero_conv = \<lparr>impressions = Fin 1000, clicks = Fin 50, spend = Fin 100, conversions = Fin 0\<rparr>"

definition zero_imp :: accumulator where
  "zero_imp = \<lparr>impressions = Fin 0, clicks = Fin 0, spend = Fin 100, conversions = Fin 5\<rparr>"

definition csv_row_of :: "string \<Rightarrow> string \<Rightarrow> string \<Rightarrow> string \<Rightarrow> string \<Rightarrow> string \<Rightarrow> row" where
  \<comment> \<open>a line under the header \<open>campaign_id,date,impressions,clicks,spend,conversions\<close>\<close>
  "csv_row_of c d i k s v =
     [''campaign_id'' \<mapsto> Some c, ''date'' \<mapsto> Some d, ''impressions'' \<mapsto> Some i,
      ''clicks'' \<mapsto> Some k, ''spend'' \<mapsto> Some s, ''conversions'' \<mapsto> Some v]"

definition sample_rows :: "row list" where
  "sample_rows =
     [csv_row_of ''CMP025'' ''2025-04-18'' ''3653'' ''60'' ''64.29'' ''2'',
      csv_row_of ''CMP020'' ''2025-05-03'' ''24465'' ''764'' ''1394.62'' ''42'',
      csv_row_of ''CMP019'' ''2025-02-05'' ''7214'' ''236'' ''135.93'' ''21'']"

definition malformed_rows :: "row list" where
  \<comment> \<open>the second line has \<open>x\<close> for its clicks\<close>
  "malformed_rows =
     [csv_row_of ''CMP025'' ''2025-04-18'' ''3653'' ''60'' ''64.29'' ''2'',
      csv_row_of ''CMP020'' ''2025-05-03'' ''24465'' ''x'' ''1394.62'' ''42'',
      csv_row_of ''CMP019'' ''2025-02-05'' ''7214'' ''236'' ''135.93'' ''21'']"

definition repeated_rows :: "row list" where
  \<comment> \<open>two lines for CMP025, one for CMP020\<close>
  "repeated_rows =
     [csv_row_of ''CMP025'' ''2025-04-18'' ''3653'' ''60'' ''64.5'' ''2'',
      csv_row_of ''CMP020'' ''2025-05-03'' ''24465'' ''764'' ''1394.25'' ''42'',
      csv_row_of ''CMP025'' ''2025-04-19'' ''347'' ''40'' ''35.25'' ''3'']"

definition large_rows :: "row list" where
  \<comment> \<open>one line whose impressions are \<open>2 ^ 53 + 1\<close>\<close>
  "large_rows = [csv_row_of ''CMP001'' ''2025-01-01'' ''9007199254740993'' ''1'' ''1'' ''1'']"

definition sample_engine :: engine where
  "sample_engine =
     \<lparr>results = [(Some ''CMP025'', cmp025), (Some ''CMP020'', cmp020), (Some ''CMP019'', cmp019),
                 (Some ''CMP_ZERO'', zero_conv), (Some ''CMP_NOIMP'', zero_imp)],
      metrics = []\<rparr>"









section \<open>Properties of the float operations\<close>

subsection \<open>The binary exponent\<close>

lemma bitlen_powi_bounds:
  fixes a :: int
  assumes "0 < a"
  shows "(2::rat) powi (bitlen a - 1) \<le> of_int a" and "of_int a < (2::rat) powi (bitlen a)"
proof -
  from assms have b: "1 \<le> bitlen a" by (auto simp: bitlen_alt_def)
  from bitlen_bounds[OF assms] have l: "2 ^ nat (bitlen a - 1) \<le> a" and u: "a < 2 ^ nat (bitlen a)"
    by auto
  have "(of_int (2 ^ nat (bitlen a - 1)) :: rat) \<le> of_int a"
    using l by (simp only: of_int_le_iff)
  then show "(2::rat) powi (bitlen a - 1) \<le> of_int a"
    using b by (simp add: power_int_nonneg_exp)
  have "(of_int a :: rat) < of_int (2 ^ nat (bitlen a))"
    using u by (simp only: of_int_less_iff)
  then show "of_int a < (2::rat) powi (bitlen a)"
    using b by (simp add: power_int_nonneg_exp)
qed

lemma ilog2_bounds:
  assumes "q \<noteq> 0"
  shows "2 powi (ilog2 q) \<le> \<bar>q\<bar>" and "\<bar>q\<bar> < 2 powi (ilog2 q + 1)"
proof -
  obtain a b where ab: "quotient_of \<bar>q\<bar> = (a, b)" by (cases "quotient_of \<bar>q\<bar>")
  have bpos: "0 < b" using ab by (rule quotient_of_denom_pos)
  have qab: "\<bar>q\<bar> = of_int a / of_int b" using ab by (rule quotient_of_div)
  have qpos: "0 < \<bar>q\<bar>" using assms by simp
  have apos: "0 < a"
    using qpos bpos unfolding qab by (simp add: zero_less_divide_iff)
  define d where "d = bitlen a - bitlen b"
  note A = bitlen_powi_bounds[OF apos] and B = bitlen_powi_bounds[OF bpos]
  have bq: "(0::rat) < of_int b" using bpos by simp
  have up: "\<bar>q\<bar> < 2 powi (d + 1)"
  proof -
    have "of_int a < (2::rat) powi (bitlen a)" by (rule A)
    also have "\<dots> = 2 powi (d + 1) * 2 powi (bitlen b - 1)"
      by (simp add: d_def flip: power_int_add)
    also have "\<dots> \<le> 2 powi (d + 1) * of_int b"
      by (intro mult_left_mono B) simp
    finally show ?thesis unfolding qab using bq by (simp add: pos_divide_less_eq)
  qed
  have lo: "2 powi (d - 1) < \<bar>q\<bar>"
  proof -
    have "(2::rat) powi (d - 1) * of_int b < 2 powi (d - 1) * 2 powi (bitlen b)"
      by (intro mult_strict_left_mono B) simp
    also have "\<dots> = 2 powi (bitlen a - 1)"
      by (simp add: d_def flip: power_int_add)
    also have "\<dots> \<le> of_int a" by (rule A)
    finally show ?thesis unfolding qab using bq by (simp add: pos_less_divide_eq)
  qed
  have il: "ilog2 q = (if 2 powi d \<le> \<bar>q\<bar> then d else d - 1)"
    by (simp add: ilog2_def ab d_def Let_def)
  show "2 powi (ilog2 q) \<le> \<bar>q\<bar>" using lo by (simp add: il)
  show "\<bar>q\<bar> < 2 powi (ilog2 q + 1)" using up by (auto simp add: il)
qed

lemma ilog2_unique:
  assumes "2 powi e \<le> \<bar>q\<bar>" and "\<bar>q\<bar> < 2 powi (e + 1)"
  shows "ilog2 q = e"
proof -
  have p: "(0::rat) < 2 powi e" by simp
  have q: "q \<noteq> 0"
  proof
    assume "q = 0"
    then have "\<bar>q\<bar> = 0" by simp
    with assms(1) p show False by linarith
  qed
  note I = ilog2_bounds[OF q]
  have "(2::rat) powi e < 2 powi (ilog2 q + 1)" using assms(1) I(2) by simp
  then have 1: "e < ilog2 q + 1"
    by (metis linorder_not_less one_le_numeral power_int_increasing)
  have "(2::rat) powi (ilog2 q) < 2 powi (e + 1)" using assms(2) I(1) by simp
  then have 2: "ilog2 q < e + 1"
    by (metis linorder_not_less one_le_numeral power_int_increasing)
  from 1 2 show ?thesis by simp
qed


subsection \<open>Rounding\<close>

lemma round_half_even_of_int: "round_half_even (of_int k) = k"
  by (simp add: round_half_even_def)

lemma rnd64_at:
  assumes "2 powi e \<le> \<bar>q\<bar>" and "\<bar>q\<bar> < 2 powi (e + 1)"
  shows "rnd64 q =
     (let u = 2 powi (max e (- 1022) - 52);
          r = of_int (round_half_even (q / u)) * u
      in if 2 ^ 1024 \<le> \<bar>r\<bar> then (if 0 < q then PInf else NInf) else Fin r)"
proof -
  have p: "(0::rat) < 2 powi e" by simp
  have q: "q \<noteq> 0"
  proof
    assume "q = 0"
    then have "\<bar>q\<bar> = 0" by simp
    with assms(1) p show False by linarith
  qed
  show ?thesis
    by (simp add: rnd64_def q ilog2_unique[OF assms] Let_def)
qed

lemma rnd64_dyadic:
  assumes m: "\<bar>m\<bar> < 2 ^ 53" and k: "- 1074 \<le> k" "k \<le> 971"
  shows "rnd64 (of_int m * 2 powi k) = Fin (of_int m * 2 powi k)"
proof (cases "m = 0")
  case True
  then show ?thesis by (simp add: rnd64_def)
next
  case False
  define q :: rat where "q = of_int m * 2 powi k"
  have q0: "q \<noteq> 0" using False by (simp add: q_def)
  define e where "e = max (ilog2 q) (- 1022)"
  have absq: "\<bar>q\<bar> = of_int \<bar>m\<bar> * 2 powi k"
    by (simp add: q_def abs_mult)
  have "(of_int \<bar>m\<bar> :: rat) < of_int (2 ^ 53)" using m by (simp only: of_int_less_iff)
  then have mlt: "(of_int \<bar>m\<bar> :: rat) < 2 powi 53" by simp
  have qlt: "\<bar>q\<bar> < 2 powi (k + 53)"
  proof -
    have "\<bar>q\<bar> < 2 powi 53 * 2 powi k"
      unfolding absq by (intro mult_strict_right_mono mlt) simp
    also have "\<dots> = 2 powi (k + 53)"
      by (simp add: power_int_add)
    finally show ?thesis .
  qed
  have "(2::rat) powi (ilog2 q) < 2 powi (k + 53)"
    using ilog2_bounds(1)[OF q0] qlt by simp
  then have "ilog2 q < k + 53"
    by (metis linorder_not_less one_le_numeral power_int_increasing)
  then have ek: "e \<le> k + 52" using k by (simp add: e_def)
  define j where "j = nat (k + 52 - e)"
  have "q / 2 powi (e - 52) = of_int m * 2 powi (k - (e - 52))"
    by (simp add: q_def power_int_diff)
  also have "k - (e - 52) = int j" using ek by (simp add: j_def)
  finally have quo: "q / 2 powi (e - 52) = of_int (m * 2 ^ j)" by simp
  have r: "of_int (round_half_even (q / 2 powi (e - 52))) * 2 powi (e - 52) = q"
    unfolding quo round_half_even_of_int using quo by (simp add: field_simps)
  have "\<bar>q\<bar> < 2 powi 1024"
  proof -
    have "(2::rat) powi (k + 53) \<le> 2 powi 1024"
      by (rule power_int_increasing) (use k in simp_all)
    with qlt show ?thesis by simp
  qed
  then have "\<not> 2 ^ 1024 \<le> \<bar>q\<bar>" by simp
  then show ?thesis
    unfolding q_def[symmetric] using q0 r
    by (simp add: rnd64_def Let_def e_def[symmetric])
qed

lemma rnd64_of_int:
  assumes "\<bar>n\<bar> \<le> 2 ^ 53"
  shows "rnd64 (of_int n) = Fin (of_int n)"
proof (cases "\<bar>n\<bar> = 2 ^ 53")
  case True
  then have "n = 2 ^ 52 * 2 \<or> n = - (2 ^ 52) * 2" by auto
  then show ?thesis
  proof
    assume "n = 2 ^ 52 * 2"
    with rnd64_dyadic[of "2 ^ 52" 1] show ?thesis by simp
  next
    assume "n = - (2 ^ 52) * 2"
    with rnd64_dyadic[of "- (2 ^ 52)" 1] show ?thesis by simp
  qed
next
  case False
  with assms have "\<bar>n\<bar> < 2 ^ 53" by simp
  from rnd64_dyadic[OF this, of 0] show ?thesis by simp
qed

lemma round_half_even_frac:
  assumes "0 < b"
  shows "round_half_even (of_int a / of_int b) =
     (if 2 * (a mod b) < b then a div b
      else if b < 2 * (a mod b) then a div b + 1
      else if even (a div b) then a div b else a div b + 1)"
proof -
  have f: "\<lfloor>(of_int a :: rat) / of_int b\<rfloor> = a div b"
    by (rule floor_divide_of_int_eq)
  have bq: "(0::rat) < of_int b" using assms by simp
  have "(of_int a :: rat) = of_int (a div b * b + a mod b)"
    by (simp only: div_mult_mod_eq)
  then have "(of_int a :: rat) = of_int (a div b) * of_int b + of_int (a mod b)"
    by (simp only: of_int_add of_int_mult)
  then have "((of_int a :: rat) - of_int (a div b) * of_int b) / of_int b = of_int (a mod b) / of_int b"
    by (simp only: add_diff_cancel_left')
  then have "(of_int a :: rat) / of_int b - of_int (a div b) = of_int (a mod b) / of_int b"
    using bq by (simp add: diff_divide_distrib)
  then have d: "(of_int a :: rat) / of_int b - of_int \<lfloor>(of_int a :: rat) / of_int b\<rfloor>
      = of_int (a mod b) / of_int b"
    by (simp only: f)
  have lt: "(of_int (a mod b) / of_int b < (1::rat) / 2) = (2 * (a mod b) < b)"
  proof -
    have "(of_int (a mod b) / of_int b < (1::rat) / 2) = ((of_int (2 * (a mod b)) :: rat) < of_int b)"
      using bq by (simp add: field_simps)
    then show ?thesis by (simp only: of_int_less_iff)
  qed
  have gt: "((1::rat) / 2 < of_int (a mod b) / of_int b) = (b < 2 * (a mod b))"
  proof -
    have "((1::rat) / 2 < of_int (a mod b) / of_int b) = ((of_int b :: rat) < of_int (2 * (a mod b)))"
      using bq by (simp add: field_simps)
    then show ?thesis by (simp only: of_int_less_iff)
  qed
  show ?thesis
    apply (simp only: round_half_even_def Let_def)
    apply (simp only: d)
    apply (simp only: f lt gt)
    done
qed

lemma round_half_even_numeral_frac:
  "round_half_even (numeral a / numeral b) =
     (if 2 * (numeral a mod numeral b) < (numeral b :: int) then numeral a div numeral b
      else if (numeral b :: int) < 2 * (numeral a mod numeral b) then numeral a div numeral b + 1
      else if even (numeral a div numeral b :: int) then numeral a div numeral b
      else numeral a div numeral b + 1)"
  using round_half_even_frac[of "numeral b" "numeral a"] by simp

lemma round_half_even_numeral: "round_half_even (numeral a) = numeral a"
  using round_half_even_of_int[of "numeral a"] by simp

lemmas rnd64_eval = round_half_even_numeral_frac round_half_even_numeral Let_def

section \<open>Properties of compute_metrics\<close>

lemma float_truediv_pos:
  assumes "float_gt d (Fin 0)"
  shows "\<exists>c. float_truediv n d = Inr c"
proof (cases d)
  case (Fin b)
  with assms have "b \<noteq> 0" by (simp add: float_gt_def)
  with Fin show ?thesis by (cases n) simp_all
next
  case PInf
  then show ?thesis by (cases n) simp_all
next
  case NInf
  with assms show ?thesis by (simp add: float_gt_def)
next
  case NaN
  with assms show ?thesis by (simp add: float_gt_def)
qed

lemma rnd64_zero: "rnd64 0 = Fin 0"
  by (simp add: rnd64_def)

lemma round4_zero: "round4 (Fin 0) = Fin 0"
  by (simp add: round_half_even_def rnd64_zero)

lemma metrics_of_total: "\<exists>m. metrics_of d = Inr m"
proof -
  obtain c where c: "(if float_gt (impressions d) (Fin 0)
            then float_truediv (clicks d) (impressions d) else Inr (Fin 0)) = Inr c"
    using float_truediv_pos[of "impressions d" "clicks d"] by (cases "float_gt (impressions d) (Fin 0)") auto
  obtain p where p: "(if float_gt (conversions d) (Fin 0)
                 then map_sum id Some (float_truediv (spend d) (conversions d)) else Inr None) = Inr p"
    using float_truediv_pos[of "conversions d" "spend d"] by (cases "float_gt (conversions d) (Fin 0)") auto
  show ?thesis unfolding metrics_of_def c p by simp
qed

lemma metrics_of_ctr:
  assumes "metrics_of d = Inr m"
  shows "float_gt (impressions d) (Fin 0) \<Longrightarrow>
           map_sum id round4 (float_truediv (clicks d) (impressions d)) = Inr (ctr m)"
    and "\<not> float_gt (impressions d) (Fin 0) \<Longrightarrow> ctr m = Fin 0"
  using assms
  by (auto simp: metrics_of_def round4_zero simp del: round4.simps split: sum.splits if_splits)

lemma metrics_of_cpa:
  assumes "metrics_of d = Inr m"
  shows "float_gt (conversions d) (Fin 0) \<Longrightarrow>
           map_sum id (\<lambda>c. Some (round4 c)) (float_truediv (spend d) (conversions d)) = Inr (cpa m)"
    and "\<not> float_gt (conversions d) (Fin 0) \<Longrightarrow> cpa m = None"
  using assms
  by (cases "float_truediv (spend d) (conversions d)";
      auto simp: metrics_of_def simp del: round4.simps split: sum.splits if_splits)+

lemma update_fresh: "k \<notin> fst ` set al \<Longrightarrow> AList.update k v al = al @ [(k, v)]"
  by (induction al) auto

lemma compute_loop_append:
  assumes "distinct (map fst rs)" and "fst ` set rs \<inter> fst ` set ms0 = {}"
  shows "\<exists>new. compute_loop rs ms0 = (None, ms0 @ new)
           \<and> list_all2 (\<lambda>(k, d) (k', m). k' = k \<and> metrics_of d = Inr m) rs new"
  using assms
proof (induction rs arbitrary: ms0)
  case Nil
  then show ?case by simp
next
  case (Cons p rs)
  obtain k d where p: "p = (k, d)" by (cases p)
  obtain m where m: "metrics_of d = Inr m" using metrics_of_total by blast
  have fresh: "k \<notin> fst ` set ms0" using Cons.prems(2) by (auto simp: p)
  have d: "distinct (map fst rs)" using Cons.prems(1) by simp
  have "fst ` set rs \<inter> fst ` set (ms0 @ [(k, m)]) = {}"
    using Cons.prems by (auto simp: p)
  from Cons.IH[OF d this] obtain new where
    new: "compute_loop rs (ms0 @ [(k, m)]) = (None, (ms0 @ [(k, m)]) @ new)"
      "list_all2 (\<lambda>(k, d) (k', m). k' = k \<and> metrics_of d = Inr m) rs new"
    by blast
  have "compute_loop (p # rs) ms0 = (None, ms0 @ ((k, m) # new))"
    by (simp add: p m update_fresh[OF fresh] new(1))
  moreover have "list_all2 (\<lambda>(k, d) (k', m). k' = k \<and> metrics_of d = Inr m) (p # rs) ((k, m) # new)"
    using new(2) by (simp add: p m)
  ultimately show ?case by blast
qed

lemma compute_loop_all2:
  assumes "distinct (map fst rs)"
  shows "\<exists>ms. compute_loop rs [] = (None, ms)
           \<and> list_all2 (\<lambda>(k, d) (k', m). k' = k \<and> metrics_of d = Inr m) rs ms"
  using compute_loop_append[OF assms, of "[]"] by simp

lemma compute_loop_total: "\<exists>ms. compute_loop rs ms0 = (None, ms)"
proof (induction rs arbitrary: ms0)
  case Nil
  then show ?case by simp
next
  case (Cons p rs)
  obtain k d where p: "p = (k, d)" by (cases p)
  obtain m where m: "metrics_of d = Inr m" using metrics_of_total by blast
  show ?case using Cons.IH[of "AList.update k m ms0"] by (simp add: p m)
qed

lemma all2_lookup:
  assumes "list_all2 (\<lambda>(k, d) (k', m). k' = k \<and> P d m) rs ms" and "map_of rs cid = Some d"
  shows "\<exists>m. map_of ms cid = Some m \<and> P d m"
  using assms by (induction rs ms rule: list_all2_induct) (auto split: if_splits)

lemma compute_metrics_eq:
  "compute_loop (results eng) [] = (None, ms) \<Longrightarrow>
     compute_metrics eng = (Inr ms, eng\<lparr>metrics := ms\<rparr>)"
  by (simp add: compute_metrics_def)

section \<open>Properties of aggregate\<close>

lemma update_total_None:
  "update_total f c rs = (None, rs') \<longleftrightarrow>
     (\<exists>a a'. map_of rs c = Some a \<and> f a = Inr a' \<and> rs' = AList.update c a' rs)"
  by (auto simp: update_total_def split: option.splits sum.splits)

lemma and_then_None:
  "and_then p f = (None, s') \<longleftrightarrow> (\<exists>s. p = (None, s) \<and> f s = (None, s'))"
  by (cases p; cases "fst p") auto

lemma map_of_ensure_entry:
  "map_of (ensure_entry c rs) c = Some (entry_or_zero rs c)"
  by (auto simp: ensure_entry_def entry_or_zero_def update_conv'
      simp flip: map_of_eq_None_iff split: option.splits)

lemma map_of_ensure_entry_other:
  "c' \<noteq> c \<Longrightarrow> map_of (ensure_entry c rs) c' = map_of rs c'"
  by (simp add: ensure_entry_def update_conv')

lemma aggregate_row_None:
  "aggregate_row row rs = (None, rs') \<longleftrightarrow>
     (\<exists>c a'. row ''campaign_id'' = Some c \<and> add_row row (entry_or_zero rs c) = Inr a'
        \<and> rs' = AList.update c a' (ensure_entry c rs))"
proof (cases "row ''campaign_id''")
  case None
  then show ?thesis by (simp add: aggregate_row_def)
next
  case (Some c)
  show ?thesis
    unfolding aggregate_row_def Some option.case and_then_None update_total_None
    by (auto simp: add_row_def update_conv' map_of_ensure_entry split: sum.splits)
qed


lemma and_then_pres:
  assumes "Q (snd p)" and "\<And>s. Q s \<Longrightarrow> Q (snd (f s))"
  shows "Q (snd (and_then p f))"
  using assms by (cases p; cases "fst p") auto

lemma update_total_pres:
  assumes "Q rs" and "\<And>a. Q (AList.update c a rs)"
  shows "Q (snd (update_total f c rs))"
  using assms by (auto simp: update_total_def split: option.splits sum.splits)

lemma aggregate_row_pres:
  assumes "Q rs" and "\<And>c a s. row ''campaign_id'' = Some c \<Longrightarrow> Q s \<Longrightarrow> Q (AList.update c a s)"
  shows "Q (snd (aggregate_row row rs))"
proof (cases "row ''campaign_id''")
  case None
  with assms(1) show ?thesis by (simp add: aggregate_row_def)
next
  case (Some c)
  have e: "Q (ensure_entry c rs)"
    using assms(1) assms(2)[OF Some assms(1)] by (simp add: ensure_entry_def)
  have u: "\<And>f s. Q s \<Longrightarrow> Q (snd (update_total f c s))"
    by (rule update_total_pres) (auto intro: assms(2)[OF Some])
  let ?s1 = "update_total (add_impressions row) c (ensure_entry c rs)"
  let ?s2 = "and_then ?s1 (update_total (add_clicks row) c)"
  let ?s3 = "and_then ?s2 (update_total (add_spend row) c)"
  have 1: "Q (snd ?s1)" by (rule u[OF e])
  have 2: "Q (snd ?s2)" using 1 u by (rule and_then_pres[where Q=Q])
  have 3: "Q (snd ?s3)" using 2 u by (rule and_then_pres[where Q=Q])
  have "Q (snd (and_then ?s3 (update_total (add_conversions row) c)))"
    using 3 u by (rule and_then_pres[where Q=Q])
  then show ?thesis
    by (simp add: aggregate_row_def Some)
qed

lemma aggregate_row_other:
  assumes "row ''campaign_id'' \<noteq> Some c'"
  shows "map_of (snd (aggregate_row row rs)) c' = map_of rs c'"
  by (rule aggregate_row_pres[where Q="\<lambda>s. map_of s c' = map_of rs c'"])
     (use assms in \<open>auto simp: update_conv'\<close>)

lemma aggregate_row_distinct:
  assumes "distinct (map fst rs)"
  shows "distinct (map fst (snd (aggregate_row row rs)))"
  by (rule aggregate_row_pres[where Q="\<lambda>s. distinct (map fst s)"])
     (use assms in \<open>auto simp: distinct_update\<close>)

lemma aggregate_row_keys_mono:
  assumes "c \<in> fst ` set rs"
  shows "c \<in> fst ` set (snd (aggregate_row row rs))"
  by (rule aggregate_row_pres[where Q="\<lambda>s. c \<in> fst ` set s"])
     (use assms in \<open>auto simp: update_conv' simp flip: dom_map_of_conv_image_fst\<close>)

lemma aggregate_rows_pres:
  assumes "Q rs" and "\<And>row s. row \<in> set rows \<Longrightarrow> Q s \<Longrightarrow> Q (snd (aggregate_row row s))"
  shows "Q (snd (aggregate_rows rows rs))"
  using assms
proof (induction rows arbitrary: rs)
  case Nil
  then show ?case by simp
next
  case (Cons row rows)
  have q: "Q (snd (aggregate_row row rs))" using Cons.prems by simp
  show ?case
  proof (cases "aggregate_row row rs")
    case (Pair r rs1)
    show ?thesis
    proof (cases r)
      case None
      with Pair q Cons.IH[of rs1] Cons.prems(2) show ?thesis by simp
    next
      case (Some e)
      with Pair q show ?thesis by simp
    qed
  qed
qed

lemma aggregate_rows_distinct:
  "distinct (map fst rs) \<Longrightarrow> distinct (map fst (snd (aggregate_rows rows rs)))"
  by (rule aggregate_rows_pres) (auto intro: aggregate_row_distinct)

lemma aggregate_rows_append:
  "aggregate_rows pre rs0 = (None, rs) \<Longrightarrow> aggregate_rows (pre @ rest) rs0 = aggregate_rows rest rs"
proof (induction pre arbitrary: rs0)
  case Nil
  then show ?case by simp
next
  case (Cons row pre)
  then show ?case
    by (cases "aggregate_row row rs0"; cases "fst (aggregate_row row rs0)") auto
qed

lemma iadd_int_Inr:
  "iadd_int x r = Inr y \<longleftrightarrow> (\<exists>n f. r = Inr n \<and> float_of_int n = Inr f \<and> y = float_add x f)"
  by (auto simp: iadd_int_def split: sum.splits)

lemma iadd_float_Inr:
  "iadd_float x r = Inr y \<longleftrightarrow> (\<exists>f. r = Inr f \<and> y = float_add x f)"
  by (auto simp: iadd_float_def split: sum.splits)

lemma add_row_Inr:
  assumes "add_row row a = Inr a'"
  shows "\<exists>i k s v fi fk fv.
           cell_int row ''impressions'' = Inr i \<and> float_of_int i = Inr fi \<and>
           cell_int row ''clicks'' = Inr k \<and> float_of_int k = Inr fk \<and>
           cell_float row ''spend'' = Inr s \<and>
           cell_int row ''conversions'' = Inr v \<and> float_of_int v = Inr fv \<and>
           impressions a' = float_add (impressions a) fi \<and>
           clicks a' = float_add (clicks a) fk \<and>
           spend a' = float_add (spend a) s \<and>
           conversions a' = float_add (conversions a) fv"
proof -
  from assms obtain a1 a2 a3 where
    1: "add_impressions row a = Inr a1" and 2: "add_clicks row a1 = Inr a2" and
    3: "add_spend row a2 = Inr a3" and 4: "add_conversions row a3 = Inr a'"
    by (auto simp: add_row_def split: sum.splits)
  from 1 obtain i fi where i: "cell_int row ''impressions'' = Inr i" "float_of_int i = Inr fi"
    "a1 = a\<lparr>impressions := float_add (impressions a) fi\<rparr>"
    by (auto simp: add_impressions_def iadd_int_Inr split: sum.splits)
  from 2 obtain k fk where k: "cell_int row ''clicks'' = Inr k" "float_of_int k = Inr fk"
    "a2 = a1\<lparr>clicks := float_add (clicks a1) fk\<rparr>"
    by (auto simp: add_clicks_def iadd_int_Inr split: sum.splits)
  from 3 obtain s where s: "cell_float row ''spend'' = Inr s"
    "a3 = a2\<lparr>spend := float_add (spend a2) s\<rparr>"
    by (auto simp: add_spend_def iadd_float_Inr split: sum.splits)
  from 4 obtain v fv where v: "cell_int row ''conversions'' = Inr v" "float_of_int v = Inr fv"
    "a' = a3\<lparr>conversions := float_add (conversions a3) fv\<rparr>"
    by (auto simp: add_conversions_def iadd_int_Inr split: sum.splits)
  show ?thesis
    using i(1,2) k(1,2) s(1) v(1,2) by (simp add: i(3) k(3) s(2) v(3))
qed

lemma aggregate_row_malformed:
  assumes "malformed row"
  shows "\<exists>e. fst (aggregate_row row rs) = Some e"
proof (rule ccontr)
  assume "\<not> ?thesis"
  then have "aggregate_row row rs = (None, snd (aggregate_row row rs))"
    by (cases "aggregate_row row rs") auto
  then obtain c a' where "add_row row (entry_or_zero rs c) = Inr a'"
    unfolding aggregate_row_None by blast
  from add_row_Inr[OF this] assms show False
    by (auto simp: malformed_def)
qed

lemma rows_of_Nil_iff: "rows_of cid rows = [] \<longleftrightarrow> cid \<notin> campaign_ids rows"
  by (auto simp: rows_of_def campaign_ids_def filter_empty_conv)

lemma entry_or_zero_Some: "map_of rs c = Some a \<Longrightarrow> entry_or_zero rs c = a"
  by (simp add: entry_or_zero_def)

lemma aggregate_rows_lookup:
  assumes "aggregate_rows rows rs = (None, rs')"
  shows "(rows_of cid rows = [] \<longrightarrow> map_of rs' cid = map_of rs cid) \<and>
         (rows_of cid rows \<noteq> [] \<longrightarrow>
            (\<exists>a'. map_of rs' cid = Some a' \<and>
                   add_rows (rows_of cid rows) (entry_or_zero rs cid) = Inr a'))"
  using assms
proof (induction rows arbitrary: rs)
  case Nil
  then show ?case by (simp add: rows_of_def)
next
  case (Cons row rows)
  from Cons.prems obtain rs1 where r1: "aggregate_row row rs = (None, rs1)"
    and r2: "aggregate_rows rows rs1 = (None, rs')"
    by (cases "aggregate_row row rs"; cases "fst (aggregate_row row rs)") auto
  from r1 obtain c a1 where c: "row ''campaign_id'' = Some c"
    and a1: "add_row row (entry_or_zero rs c) = Inr a1"
    and rs1: "rs1 = AList.update c a1 (ensure_entry c rs)"
    unfolding aggregate_row_None by blast
  note IH = Cons.IH[OF r2]
  show ?case
  proof (cases "c = cid")
    case True
    have m1: "map_of rs1 cid = Some a1" by (simp add: rs1 True update_conv')
    have ro: "rows_of cid (row # rows) = row # rows_of cid rows"
      using c True by (simp add: rows_of_def)
    show ?thesis
    proof (cases "rows_of cid rows = []")
      case e: True
      with IH m1 have "map_of rs' cid = Some a1" by simp
      then show ?thesis using a1 True by (simp add: ro e)
    next
      case False
      with IH obtain a' where "map_of rs' cid = Some a'"
        "add_rows (rows_of cid rows) (entry_or_zero rs1 cid) = Inr a'" by blast
      then show ?thesis using a1 True by (simp add: ro entry_or_zero_Some[OF m1])
    qed
  next
    case False
    have m1: "map_of rs1 cid = map_of rs cid"
      using False by (simp add: rs1 update_conv' map_of_ensure_entry_other)
    have ro: "rows_of cid (row # rows) = rows_of cid rows"
      using c False by (simp add: rows_of_def)
    have "entry_or_zero rs1 cid = entry_or_zero rs cid"
      by (simp add: entry_or_zero_def m1)
    with IH show ?thesis by (simp add: ro m1)
  qed
qed

lemma add_rows_spend:
  "add_rows rws a = Inr a' \<Longrightarrow> spend a' = foldl float_add (spend a) (float_cells ''spend'' rws)"
proof (induction rws arbitrary: a)
  case Nil
  then show ?case by (simp add: float_cells_def)
next
  case (Cons row rws)
  from Cons.prems obtain a1 where a1: "add_row row a = Inr a1" and r: "add_rows rws a1 = Inr a'"
    by (auto split: sum.splits)
  from add_row_Inr[OF a1] obtain s where "cell_float row ''spend'' = Inr s"
    "spend a1 = float_add (spend a) s" by blast
  with Cons.IH[OF r] show ?case by (simp add: float_cells_def)
qed

lemma float_of_int_exact: "\<bar>n\<bar> \<le> 2 ^ 53 \<Longrightarrow> float_of_int n = Inr (Fin (of_int n))"
  by (simp add: float_of_int_def rnd64_of_int)

lemma float_add_int_exact:
  assumes "\<bar>m + n\<bar> \<le> 2 ^ 53"
  shows "float_add (Fin (of_int m)) (Fin (of_int n)) = Fin (of_int (m + n))"
  using rnd64_of_int[OF assms] by simp

lemma add_rows_exact:
  assumes step: "\<And>row a a'. add_row row a = Inr a' \<Longrightarrow>
            \<exists>n f. cell_int row k = Inr n \<and> float_of_int n = Inr f \<and> g a' = float_add (g a) f"
    and "add_rows rws a = Inr a'" and "g a = Fin (of_int n0)"
    and "\<bar>n0\<bar> + sum_list (map abs (int_cells k rws)) \<le> 2 ^ 53"
  shows "g a' = Fin (of_int (n0 + sum_list (int_cells k rws)))"
  using assms(2-)
proof (induction rws arbitrary: a n0)
  case Nil
  then show ?case by (simp add: int_cells_def)
next
  case (Cons row rws)
  from Cons.prems(1) obtain a1 where a1: "add_row row a = Inr a1" and r: "add_rows rws a1 = Inr a'"
    by (auto split: sum.splits)
  from step[OF a1] obtain n f where n: "cell_int row k = Inr n" "float_of_int n = Inr f"
    "g a1 = float_add (g a) f" by blast
  have ic: "int_cells k (row # rws) = n # int_cells k rws"
    by (simp add: int_cells_def n(1))
  have nonneg: "0 \<le> sum_list (map abs (int_cells k rws))"
    by (rule sum_list_nonneg) auto
  have b: "\<bar>n0\<bar> + \<bar>n\<bar> + sum_list (map abs (int_cells k rws)) \<le> 2 ^ 53"
    using Cons.prems(3) by (simp add: ic)
  have bn: "\<bar>n\<bar> \<le> 2 ^ 53" using b nonneg by linarith
  have bs: "\<bar>n0 + n\<bar> \<le> 2 ^ 53" using b nonneg by linarith
  have f: "f = Fin (of_int n)" using n(2) float_of_int_exact[OF bn] by simp
  have g1: "g a1 = Fin (of_int (n0 + n))"
    unfolding n(3) Cons.prems(2) f by (rule float_add_int_exact[OF bs])
  have "\<bar>n0 + n\<bar> + sum_list (map abs (int_cells k rws)) \<le> 2 ^ 53"
    using b by linarith
  from Cons.IH[OF r g1 this] show ?case by (simp add: ic add.assoc)
qed

lemma zero_accumulator_fields:
  "impressions zero_accumulator = Fin (of_int 0)" "clicks zero_accumulator = Fin (of_int 0)"
  "conversions zero_accumulator = Fin (of_int 0)" "spend zero_accumulator = Fin 0"
  by (simp_all add: zero_accumulator_def)

lemma aggregate_Inr:
  "aggregate rows eng = (Inr rs, eng') \<longleftrightarrow>
     aggregate_rows rows [] = (None, rs) \<and> eng' = eng\<lparr>results := rs, metrics := []\<rparr>"
  by (cases "aggregate_rows rows []"; cases "fst (aggregate_rows rows [])")
     (auto simp: aggregate_def)

lemma aggregate_rows_malformed:
  assumes "row \<in> set rows" and "malformed row"
  shows "\<exists>e. fst (aggregate_rows rows rs) = Some e"
  using assms(1)
proof (induction rows arbitrary: rs)
  case Nil
  then show ?case by simp
next
  case (Cons r rows)
  show ?case
  proof (cases "aggregate_row r rs")
    case (Pair x rs1)
    show ?thesis
    proof (cases x)
      case (Some e)
      with Pair show ?thesis by simp
    next
      case None
      with Pair aggregate_row_malformed[OF assms(2), of rs] have "r \<noteq> row" by auto
      with Cons.prems have "row \<in> set rows" by simp
      from Cons.IH[OF this, of rs1] Pair None show ?thesis by simp
    qed
  qed
qed

lemma aggregate_fst:
  "fst (aggregate rows eng) =
     (case fst (aggregate_rows rows []) of Some e \<Rightarrow> Inl e | None \<Rightarrow> Inr (snd (aggregate_rows rows [])))"
  by (cases "aggregate_rows rows []"; cases "fst (aggregate_rows rows [])")
     (auto simp: aggregate_def)

lemma aggregate_snd:
  "snd (aggregate rows eng) = eng\<lparr>results := snd (aggregate_rows rows []), metrics := []\<rparr>"
  by (cases "aggregate_rows rows []"; cases "fst (aggregate_rows rows [])")
     (auto simp: aggregate_def)

subsection \<open>Evaluating the sample data\<close>

lemma rnd64_numeral:
  "(numeral w :: int) \<le> 2 ^ 53 \<Longrightarrow> rnd64 (numeral w) = Fin (numeral w)"
  using rnd64_of_int[of "numeral w"] by simp

lemma rnd64_one: "rnd64 1 = Fin 1"
  using rnd64_of_int[of 1] by simp

lemmas parse_eval = py_int_def py_float_def strip_def is_space_def split_sign_def is_digit_def
  digits_value_def parse_decimal_def parse_exponent_def lower_def cell_int_def cell_float_def
  csv_row_of_def

lemmas aggregate_eval = aggregate_def aggregate_row_def update_total_def ensure_entry_def
  add_impressions_def add_clicks_def add_spend_def add_conversions_def iadd_int_def
  iadd_float_def float_of_int_def zero_accumulator_def init_def rnd64_numeral rnd64_zero rnd64_one

section \<open>Properties of write_reports\<close>

subsection \<open>Sorting\<close>
















subsection \<open>The two reports\<close>


lemma consistent_metrics:
  assumes "consistent eng"
  shows "\<exists>ms. (if metrics eng = [] then compute_metrics eng else (Inr (metrics eng), eng))
             = (Inr ms, eng\<lparr>metrics := ms\<rparr>)
           \<and> compute_loop (results eng) [] = (None, ms)"
proof (cases "metrics eng = []")
  case True
  obtain ms where "compute_loop (results eng) [] = (None, ms)"
    using compute_loop_total by blast
  with True show ?thesis by (simp add: compute_metrics_def)
next
  case False
  with assms have "compute_loop (results eng) [] = (None, metrics eng)"
    by (simp add: consistent_def)
  with False show ?thesis by simp
qed







subsection \<open>The invariant of the engine\<close>

lemma consistent_init: "consistent init"
  by (simp add: consistent_def init_def)

lemma consistent_aggregate: "consistent (snd (aggregate rows eng))"
  using aggregate_rows_distinct[of "[]" rows] by (simp add: aggregate_snd consistent_def)

lemma consistent_compute_metrics:
  assumes "consistent eng"
  shows "consistent (snd (compute_metrics eng))"
proof -
  obtain ms where ms: "compute_loop (results eng) [] = (None, ms)"
    using compute_loop_total by blast
  with assms show ?thesis by (simp add: compute_metrics_def consistent_def)
qed

lemma consistent_write_reports:
  assumes "consistent eng"
  shows "consistent (fst (snd (write_reports d eng fs)))"
proof -
  from consistent_metrics[OF assms] obtain ms where
    ms: "(if metrics eng = [] then compute_metrics eng else (Inr (metrics eng), eng))
             = (Inr ms, eng\<lparr>metrics := ms\<rparr>)"
    and cl: "compute_loop (results eng) [] = (None, ms)" by blast
  have "fst (snd (write_reports d eng fs)) = eng\<lparr>metrics := ms\<rparr>"
    unfolding write_reports_def ms by (simp split: sum.splits)
  with assms cl show ?thesis by (simp add: consistent_def)
qed

subsection \<open>Evaluating the sample reports\<close>









section \<open>The claims about compute_metrics\<close>

text \<open>
  Claim C5. For every campaign in the accumulator mapping, \<open>compute_metrics\<close> returns
  a metrics mapping in which the campaign's \<open>ctr\<close> is
  \<open>round(clicks_total / impressions_total, 4)\<close> when \<open>impressions_total > 0\<close> (the
  division does not raise), and exactly \<open>0.0\<close> when \<open>impressions_total\<close> is zero.
\<close>

theorem compute_metrics_ctr:
  assumes "distinct (map fst (results eng))" and "map_of (results eng) cid = Some d"
  shows "\<exists>ms m. compute_metrics eng = (Inr ms, eng\<lparr>metrics := ms\<rparr>) \<and> map_of ms cid = Some m \<and>
           (float_gt (impressions d) (Fin 0) \<longrightarrow>
              map_sum id round4 (float_truediv (clicks d) (impressions d)) = Inr (ctr m)) \<and>
           (impressions d = Fin 0 \<longrightarrow> ctr m = Fin 0)"
proof -
  from compute_loop_all2[OF assms(1)] obtain ms where
    ms: "compute_loop (results eng) [] = (None, ms)"
      "list_all2 (\<lambda>(k, d) (k', m). k' = k \<and> metrics_of d = Inr m) (results eng) ms"
    by blast
  from all2_lookup[OF ms(2) assms(2)] obtain m where
    m: "map_of ms cid = Some m" "metrics_of d = Inr m" by blast
  have "impressions d = Fin 0 \<longrightarrow> ctr m = Fin 0"
    using metrics_of_ctr(2)[OF m(2)] by (auto simp: float_gt_def)
  with compute_metrics_eq[OF ms(1)] m(1) metrics_of_ctr(1)[OF m(2)] show ?thesis by blast
qed

theorem compute_metrics_ctr_witness:
  "distinct (map fst (results sample_engine)) \<and>
   map_of (results sample_engine) (Some ''CMP025'') = Some cmp025 \<and>
   float_gt (impressions cmp025) (Fin 0) \<and>
   (\<exists>m. map_of (metrics (snd (compute_metrics sample_engine))) (Some ''CMP025'') = Some m \<and>
        ctr m = Fin (4726978168888073 / 288230376151711744)) \<and>
   map_of (results sample_engine) (Some ''CMP_NOIMP'') = Some zero_imp \<and>
   impressions zero_imp = Fin 0 \<and>
   (\<exists>m. map_of (metrics (snd (compute_metrics sample_engine))) (Some ''CMP_NOIMP'') = Some m \<and>
        ctr m = Fin 0)"
  using compute_metrics_ctr[of sample_engine "Some ''CMP025''" cmp025]
    compute_metrics_ctr[of sample_engine "Some ''CMP_NOIMP''" zero_imp]
  by (auto simp add: sample_engine_def cmp025_def zero_imp_def float_gt_def
        rnd64_at[of "- 6"] rnd64_eval)

text \<open>
  Claim C3. For every campaign in the accumulator mapping, \<open>compute_metrics\<close> returns
  a metrics mapping in which the campaign's \<open>cpa\<close> is
  \<open>round(spend_total / conversions_total, 4)\<close> when \<open>conversions_total > 0\<close>, and is
  absent (None, not a number) when \<open>conversions_total\<close> is zero.
\<close>

theorem compute_metrics_cpa:
  assumes "distinct (map fst (results eng))" and "map_of (results eng) cid = Some d"
  shows "\<exists>ms m. compute_metrics eng = (Inr ms, eng\<lparr>metrics := ms\<rparr>) \<and> map_of ms cid = Some m \<and>
           (float_gt (conversions d) (Fin 0) \<longrightarrow>
              map_sum id (\<lambda>c. Some (round4 c)) (float_truediv (spend d) (conversions d))
                = Inr (cpa m)) \<and>
           (conversions d = Fin 0 \<longrightarrow> cpa m = None)"
proof -
  from compute_loop_all2[OF assms(1)] obtain ms where
    ms: "compute_loop (results eng) [] = (None, ms)"
      "list_all2 (\<lambda>(k, d) (k', m). k' = k \<and> metrics_of d = Inr m) (results eng) ms"
    by blast
  from all2_lookup[OF ms(2) assms(2)] obtain m where
    m: "map_of ms cid = Some m" "metrics_of d = Inr m" by blast
  have "conversions d = Fin 0 \<longrightarrow> cpa m = None"
    using metrics_of_cpa(2)[OF m(2)] by (auto simp: float_gt_def)
  with compute_metrics_eq[OF ms(1)] m(1) metrics_of_cpa(1)[OF m(2)] show ?thesis by blast
qed

theorem compute_metrics_cpa_witness:
  "distinct (map fst (results sample_engine)) \<and>
   map_of (results sample_engine) (Some ''CMP020'') = Some cmp020 \<and>
   float_gt (conversions cmp020) (Fin 0) \<and>
   (\<exists>m. map_of (metrics (snd (compute_metrics sample_engine))) (Some ''CMP020'') = Some m \<and>
        cpa m = Some (Fin (4673216448336337 / 140737488355328))) \<and>
   map_of (results sample_engine) (Some ''CMP_ZERO'') = Some zero_conv \<and>
   conversions zero_conv = Fin 0 \<and>
   (\<exists>m. map_of (metrics (snd (compute_metrics sample_engine))) (Some ''CMP_ZERO'') = Some m \<and>
        cpa m = None)"
  using compute_metrics_cpa[of sample_engine "Some ''CMP020''" cmp020]
    compute_metrics_cpa[of sample_engine "Some ''CMP_ZERO''" zero_conv]
  by (auto simp add: sample_engine_def cmp020_def zero_conv_def float_gt_def
        rnd64_at[of 5] rnd64_eval)

text \<open>
  Claim C7. \<open>compute_metrics\<close> is a function of the accumulator mapping alone: it
  always returns, a second call without an aggregation in between returns the same
  metrics mapping and leaves the engine as the first call left it, and the metrics
  held before the call have no influence on the result.
\<close>

theorem compute_metrics_idempotent:
  "\<exists>ms. compute_metrics eng = (Inr ms, eng\<lparr>metrics := ms\<rparr>) \<and>
        compute_metrics (eng\<lparr>metrics := ms\<rparr>) = (Inr ms, eng\<lparr>metrics := ms\<rparr>) \<and>
        fst (compute_metrics (eng\<lparr>metrics := ms0\<rparr>)) = Inr ms"
proof -
  obtain ms where "compute_loop (results eng) [] = (None, ms)"
    using compute_loop_total by blast
  then show ?thesis by (simp add: compute_metrics_def)
qed

section \<open>The claims about aggregate\<close>

text \<open>
  Claim C2, as the code has it. A row with a numeric field that cannot be parsed makes
  \<open>aggregate\<close> raise, whatever the rows before and after it: no mapping is returned
  and the metrics are empty. The accumulator mapping of the engine is not reset: when
  the rows before the malformed one were aggregated without error, the mapping that
  \<open>get_results\<close> returns afterwards is what the loop had stored when it stopped. Every
  campaign of the earlier rows is still in it, and with unchanged totals unless it is
  the campaign of the malformed row.
\<close>

theorem aggregate_malformed_row:
  assumes "malformed row"
  shows "(\<exists>e. fst (aggregate (pre @ row # post) eng) = Inl e) \<and>
         get_metrics (snd (aggregate (pre @ row # post) eng)) = [] \<and>
         (\<forall>rs. fst (aggregate pre eng) = Inr rs \<longrightarrow>
            get_results (snd (aggregate (pre @ row # post) eng)) = snd (aggregate_row row rs) \<and>
            fst ` set rs \<subseteq> fst ` set (get_results (snd (aggregate (pre @ row # post) eng))) \<and>
            (\<forall>c a. map_of rs c = Some a \<longrightarrow> row ''campaign_id'' \<noteq> Some c \<longrightarrow>
               get_campaign_total (snd (aggregate (pre @ row # post) eng)) c = Some a))"
proof -
  let ?rows = "pre @ row # post"
  have "row \<in> set ?rows" by simp
  from aggregate_rows_malformed[OF this assms, of "[]"]
  have 1: "\<exists>e. fst (aggregate ?rows eng) = Inl e"
    by (auto simp: aggregate_fst)
  have 2: "get_metrics (snd (aggregate ?rows eng)) = []"
    by (simp add: aggregate_snd get_metrics_def)
  have 3: "get_results (snd (aggregate ?rows eng)) = snd (aggregate_row row rs) \<and>
            fst ` set rs \<subseteq> fst ` set (get_results (snd (aggregate ?rows eng))) \<and>
            (\<forall>c a. map_of rs c = Some a \<longrightarrow> row ''campaign_id'' \<noteq> Some c \<longrightarrow>
               get_campaign_total (snd (aggregate ?rows eng)) c = Some a)"
    if "fst (aggregate pre eng) = Inr rs" for rs
  proof -
    from that have pre: "aggregate_rows pre [] = (None, rs)"
      by (cases "aggregate_rows pre []"; cases "fst (aggregate_rows pre [])")
         (auto simp: aggregate_fst)
    obtain e where e: "fst (aggregate_row row rs) = Some e"
      using aggregate_row_malformed[OF assms] by blast
    have "aggregate_rows ?rows [] = aggregate_rows (row # post) rs"
      by (rule aggregate_rows_append[OF pre])
    also have "\<dots> = (Some e, snd (aggregate_row row rs))"
      using e by (cases "aggregate_row row rs") auto
    finally have r: "results (snd (aggregate ?rows eng)) = snd (aggregate_row row rs)"
      by (simp add: aggregate_snd)
    have k: "fst ` set rs \<subseteq> fst ` set (snd (aggregate_row row rs))"
      using aggregate_row_keys_mono by blast
    show ?thesis
      using r k by (auto simp: get_results_def get_campaign_total_def aggregate_row_other)
  qed
  from 1 2 3 show ?thesis by blast
qed

theorem aggregate_malformed_row_witness:
  "malformed (malformed_rows ! 1) \<and>
   fst (aggregate ([malformed_rows ! 0] @ malformed_rows ! 1 # [malformed_rows ! 2]) sample_engine)
     = Inl ValueError \<and>
   fst (aggregate [malformed_rows ! 0] sample_engine) = Inr [(Some ''CMP025'', cmp025)] \<and>
   map_of [(Some ''CMP025'', cmp025)] (Some ''CMP025'') = Some cmp025 \<and>
   (malformed_rows ! 1) ''campaign_id'' \<noteq> Some (Some ''CMP025'') \<and>
   get_campaign_total
     (snd (aggregate ([malformed_rows ! 0] @ malformed_rows ! 1 # [malformed_rows ! 2]) sample_engine))
     (Some ''CMP025'') = Some cmp025"
  using aggregate_malformed_row[of "malformed_rows ! 1" "[malformed_rows ! 0]" "[malformed_rows ! 2]" sample_engine]
  by (simp add: malformed_rows_def malformed_def cmp025_def sample_engine_def
      get_campaign_total_def parse_eval aggregate_eval rnd64_at[of 6] rnd64_eval)

text \<open>
  Claim C2 as stated fails: after the second line of \<open>malformed_rows\<close> has raised
  ValueError at its clicks, \<open>get_results\<close> returns the totals of the first line, and
  the impressions of the malformed line itself, already added.
\<close>

theorem aggregate_partial_state_counterexample:
  "fst (aggregate malformed_rows init) = Inl ValueError \<and>
   get_results (snd (aggregate malformed_rows init)) =
     [(Some ''CMP025'', cmp025),
      (Some ''CMP020'', \<lparr>impressions = Fin 24465, clicks = Fin 0, spend = Fin 0, conversions = Fin 0\<rparr>)]"
  by (simp add: malformed_rows_def get_results_def cmp025_def parse_eval aggregate_eval
      rnd64_at[of 6] rnd64_eval)

text \<open>
  Claim C8. \<open>aggregate\<close> clears both dictionaries before it reads the first row: on
  any engine it returns what it returns on a new engine and leaves the engine in the
  same state, with empty metrics.
\<close>

theorem aggregate_clears_state:
  fixes eng :: engine
  shows "aggregate rows eng = aggregate rows init \<and>
         get_metrics (snd (aggregate rows eng)) = []"
proof -
  have "eng\<lparr>results := rs, metrics := []\<rparr> = init\<lparr>results := rs, metrics := []\<rparr>" for rs
    by (cases eng) (simp add: init_def)
  then have "snd (aggregate rows eng) = snd (aggregate rows init)"
    by (simp add: aggregate_snd)
  moreover have "fst (aggregate rows eng) = fst (aggregate rows init)"
    by (simp add: aggregate_fst)
  ultimately show ?thesis
    by (simp add: prod_eq_iff aggregate_snd get_metrics_def)
qed

text \<open>
  Claim C10. After an aggregation that returned, \<open>get_campaign_total\<close> gives the
  accumulator of a campaign id that occurs in the input (the entry of the returned
  mapping), and None for a campaign id that does not occur.
\<close>

theorem get_campaign_total_found:
  assumes "aggregate rows eng = (Inr rs, eng')"
  shows "(cid \<in> campaign_ids rows \<longrightarrow>
           (\<exists>a. get_campaign_total eng' cid = Some a \<and> map_of rs cid = Some a)) \<and>
         (cid \<notin> campaign_ids rows \<longrightarrow> get_campaign_total eng' cid = None)"
proof -
  from assms have ar: "aggregate_rows rows [] = (None, rs)"
    and eng': "eng' = eng\<lparr>results := rs, metrics := []\<rparr>"
    unfolding aggregate_Inr by simp_all
  from aggregate_rows_lookup[OF ar, of cid] show ?thesis
    by (auto simp: get_campaign_total_def eng' rows_of_Nil_iff)
qed

theorem get_campaign_total_found_witness:
  "aggregate sample_rows init =
     (Inr [(Some ''CMP025'', cmp025), (Some ''CMP020'', cmp020), (Some ''CMP019'', cmp019)],
      \<lparr>results = [(Some ''CMP025'', cmp025), (Some ''CMP020'', cmp020), (Some ''CMP019'', cmp019)], metrics = []\<rparr>) \<and>
   (Some ''CMP020'') \<in> campaign_ids sample_rows \<and>
   get_campaign_total
     \<lparr>results = [(Some ''CMP025'', cmp025), (Some ''CMP020'', cmp020), (Some ''CMP019'', cmp019)], metrics = []\<rparr>
     (Some ''CMP020'') = Some cmp020 \<and>
   (Some ''CMP999'') \<notin> campaign_ids sample_rows \<and>
   get_campaign_total
     \<lparr>results = [(Some ''CMP025'', cmp025), (Some ''CMP020'', cmp020), (Some ''CMP019'', cmp019)], metrics = []\<rparr>
     (Some ''CMP999'') = None"
  using get_campaign_total_found[of sample_rows init
      "[(Some ''CMP025'', cmp025), (Some ''CMP020'', cmp020), (Some ''CMP019'', cmp019)]"
      "\<lparr>results = [(Some ''CMP025'', cmp025), (Some ''CMP020'', cmp020), (Some ''CMP019'', cmp019)], metrics = []\<rparr>"
      "Some ''CMP020''"]
    get_campaign_total_found[of sample_rows init
      "[(Some ''CMP025'', cmp025), (Some ''CMP020'', cmp020), (Some ''CMP019'', cmp019)]"
      "\<lparr>results = [(Some ''CMP025'', cmp025), (Some ''CMP020'', cmp020), (Some ''CMP019'', cmp019)], metrics = []\<rparr>"
      "Some ''CMP999''"]
  by (simp add: sample_rows_def campaign_ids_def cmp025_def cmp020_def cmp019_def
      get_campaign_total_def parse_eval aggregate_eval
      rnd64_at[of 6] rnd64_at[of 7] rnd64_at[of 10] rnd64_eval)

text \<open>
  Claim C4, as the code has it. The totals are floats. After an aggregation that
  returned, every campaign id of the input has an accumulator; its impressions, clicks
  and conversions are each the exact sum of the field over the rows of the campaign
  provided the absolute values of that field add up to at most \<open>2 ^ 53\<close>; its spend is
  the floating-point sum of the spend cells, added in input order to \<open>0.0\<close>.
\<close>

theorem aggregate_totals:
  assumes "aggregate rows eng = (Inr rs, eng')" and "cid \<in> campaign_ids rows"
  shows "\<exists>a. map_of rs cid = Some a \<and> get_campaign_total eng' cid = Some a \<and>
     (sum_list (map abs (int_cells ''impressions'' (rows_of cid rows))) \<le> 2 ^ 53 \<longrightarrow>
        impressions a = Fin (of_int (sum_list (int_cells ''impressions'' (rows_of cid rows))))) \<and>
     (sum_list (map abs (int_cells ''clicks'' (rows_of cid rows))) \<le> 2 ^ 53 \<longrightarrow>
        clicks a = Fin (of_int (sum_list (int_cells ''clicks'' (rows_of cid rows))))) \<and>
     (sum_list (map abs (int_cells ''conversions'' (rows_of cid rows))) \<le> 2 ^ 53 \<longrightarrow>
        conversions a = Fin (of_int (sum_list (int_cells ''conversions'' (rows_of cid rows))))) \<and>
     spend a = foldl float_add (Fin 0) (float_cells ''spend'' (rows_of cid rows))"
proof -
  from assms(1) have ar: "aggregate_rows rows [] = (None, rs)"
    and eng': "eng' = eng\<lparr>results := rs, metrics := []\<rparr>"
    unfolding aggregate_Inr by simp_all
  have ne: "rows_of cid rows \<noteq> []" using assms(2) by (simp add: rows_of_Nil_iff)
  with aggregate_rows_lookup[OF ar, of cid] obtain a where
    a: "map_of rs cid = Some a" and
    ad: "add_rows (rows_of cid rows) zero_accumulator = Inr a"
    by (auto simp: entry_or_zero_def)
  have i: "impressions a = Fin (of_int (sum_list (int_cells ''impressions'' (rows_of cid rows))))"
    if "sum_list (map abs (int_cells ''impressions'' (rows_of cid rows))) \<le> 2 ^ 53"
    using add_rows_exact[where g=impressions and k="''impressions''" and ?n0.0=0,
        OF _ ad zero_accumulator_fields(1)] add_row_Inr that by fastforce
  have c: "clicks a = Fin (of_int (sum_list (int_cells ''clicks'' (rows_of cid rows))))"
    if "sum_list (map abs (int_cells ''clicks'' (rows_of cid rows))) \<le> 2 ^ 53"
    using add_rows_exact[where g=clicks and k="''clicks''" and ?n0.0=0,
        OF _ ad zero_accumulator_fields(2)] add_row_Inr that by fastforce
  have v: "conversions a = Fin (of_int (sum_list (int_cells ''conversions'' (rows_of cid rows))))"
    if "sum_list (map abs (int_cells ''conversions'' (rows_of cid rows))) \<le> 2 ^ 53"
    using add_rows_exact[where g=conversions and k="''conversions''" and ?n0.0=0,
        OF _ ad zero_accumulator_fields(3)] add_row_Inr that by fastforce
  have s: "spend a = foldl float_add (Fin 0) (float_cells ''spend'' (rows_of cid rows))"
    using add_rows_spend[OF ad] by (simp add: zero_accumulator_fields)
  from a i c v s show ?thesis
    by (auto simp: get_campaign_total_def eng')
qed

theorem aggregate_totals_witness:
  "aggregate repeated_rows init =
     (Inr [(Some ''CMP025'', \<lparr>impressions = Fin 4000, clicks = Fin 100, spend = Fin (399 / 4),
                          conversions = Fin 5\<rparr>),
           (Some ''CMP020'', \<lparr>impressions = Fin 24465, clicks = Fin 764, spend = Fin (5577 / 4),
                          conversions = Fin 42\<rparr>)],
      \<lparr>results = [(Some ''CMP025'', \<lparr>impressions = Fin 4000, clicks = Fin 100, spend = Fin (399 / 4),
                                   conversions = Fin 5\<rparr>),
                  (Some ''CMP020'', \<lparr>impressions = Fin 24465, clicks = Fin 764, spend = Fin (5577 / 4),
                                   conversions = Fin 42\<rparr>)],
       metrics = []\<rparr>) \<and>
   (Some ''CMP025'') \<in> campaign_ids repeated_rows \<and>
   int_cells ''impressions'' (rows_of (Some ''CMP025'') repeated_rows) = [3653, 347] \<and>
   int_cells ''clicks'' (rows_of (Some ''CMP025'') repeated_rows) = [60, 40] \<and>
   int_cells ''conversions'' (rows_of (Some ''CMP025'') repeated_rows) = [2, 3] \<and>
   float_cells ''spend'' (rows_of (Some ''CMP025'') repeated_rows) = [Fin (129 / 2), Fin (141 / 4)] \<and>
   (\<exists>a. get_campaign_total (snd (aggregate repeated_rows init)) (Some ''CMP025'') = Some a \<and>
        impressions a = Fin 4000 \<and> clicks a = Fin 100 \<and> conversions a = Fin 5 \<and>
        spend a = float_add (float_add (Fin 0) (Fin (129 / 2))) (Fin (141 / 4)))"
  using aggregate_totals[of repeated_rows init
      "[(Some ''CMP025'', \<lparr>impressions = Fin 4000, clicks = Fin 100, spend = Fin (399 / 4),
                          conversions = Fin 5\<rparr>),
        (Some ''CMP020'', \<lparr>impressions = Fin 24465, clicks = Fin 764, spend = Fin (5577 / 4),
                          conversions = Fin 42\<rparr>)]"
      "\<lparr>results = [(Some ''CMP025'', \<lparr>impressions = Fin 4000, clicks = Fin 100, spend = Fin (399 / 4),
                                   conversions = Fin 5\<rparr>),
                  (Some ''CMP020'', \<lparr>impressions = Fin 24465, clicks = Fin 764, spend = Fin (5577 / 4),
                                   conversions = Fin 42\<rparr>)],
       metrics = []\<rparr>" "Some ''CMP025''"]
  by (simp add: repeated_rows_def campaign_ids_def rows_of_def int_cells_def float_cells_def
      get_campaign_total_def parse_eval aggregate_eval
      rnd64_at[of 6] rnd64_at[of 10] rnd64_at[of 5] rnd64_eval)

text \<open>
  Claim C4 as stated fails: a single line with \<open>2 ^ 53 + 1\<close> impressions leaves the
  total \<open>2 ^ 53\<close>, the nearest double, not the sum of the impressions of the campaign.
\<close>

theorem aggregate_totals_counterexample:
  "map_option impressions (get_campaign_total (snd (aggregate large_rows init)) (Some ''CMP001''))
     = Some (Fin 9007199254740992) \<and>
   sum_list (int_cells ''impressions'' (rows_of (Some ''CMP001'') large_rows)) = 9007199254740993"
  by (simp add: large_rows_def get_campaign_total_def int_cells_def rows_of_def
      parse_eval aggregate_eval rnd64_at[of 53] rnd64_eval)

section \<open>The claims about write_reports\<close>







end
